theory Spec2Isabelle
  imports Complex_Main
begin

section \<open>JavaScript values used by the route generator\<close>

text \<open>
  The generator is the function \<open>runLocalOptimization\<close> with its helper \<open>getNeighbors\<close>.
  It throws no error of its own; the errors it can end with are the two that the
  JavaScript operations it uses raise: \<open>Array(n)\<close> with an invalid length, and reading a
  property of \<open>undefined\<close>.
\<close>

datatype error = RangeError | TypeError

text \<open>
  Numbers are the reals extended with the three special values of IEEE arithmetic that
  the code can produce (\<open>0 / 0\<close>, \<open>x / 0\<close>, \<open>undefined + 1\<close>). Rounding of the binary
  representation and the sign of zero are abstracted.
\<close>

datatype jsnum = NaN | NegInf | Fin real | PosInf

definition inf_of_sign :: "real \<Rightarrow> jsnum" where
  "inf_of_sign s = (if s = 0 then NaN else if 0 < s then PosInf else NegInf)"

fun sign_of :: "jsnum \<Rightarrow> real" where
  "sign_of NaN = 0"
| "sign_of NegInf = -1"
| "sign_of PosInf = 1"
| "sign_of (Fin a) = sgn a"

fun jadd :: "jsnum \<Rightarrow> jsnum \<Rightarrow> jsnum" where
  "jadd (Fin a) (Fin b) = Fin (a + b)"
| "jadd NaN y = NaN"
| "jadd x NaN = NaN"
| "jadd PosInf NegInf = NaN"
| "jadd NegInf PosInf = NaN"
| "jadd PosInf y = PosInf"
| "jadd NegInf y = NegInf"
| "jadd (Fin a) y = y"

fun jneg :: "jsnum \<Rightarrow> jsnum" where
  "jneg NaN = NaN"
| "jneg NegInf = PosInf"
| "jneg PosInf = NegInf"
| "jneg (Fin a) = Fin (- a)"

definition jsub :: "jsnum \<Rightarrow> jsnum \<Rightarrow> jsnum" where
  "jsub x y = jadd x (jneg y)"

fun jmul :: "jsnum \<Rightarrow> jsnum \<Rightarrow> jsnum" where
  "jmul (Fin a) (Fin b) = Fin (a * b)"
| "jmul NaN y = NaN"
| "jmul x NaN = NaN"
| "jmul x y = inf_of_sign (sign_of x * sign_of y)"

fun jdiv :: "jsnum \<Rightarrow> jsnum \<Rightarrow> jsnum" where
  "jdiv (Fin a) (Fin b) = (if b = 0 then inf_of_sign (sgn a) else Fin (a / b))"
| "jdiv NaN y = NaN"
| "jdiv x NaN = NaN"
| "jdiv (Fin a) y = Fin 0"
| "jdiv x (Fin b) = inf_of_sign (sign_of x * (if b < 0 then -1 else 1))"
| "jdiv x y = NaN"

text \<open>\<open>x > y\<close> and \<open>x >= y\<close>: false as soon as one side is \<open>NaN\<close>.\<close>

fun jgt :: "jsnum \<Rightarrow> jsnum \<Rightarrow> bool" where
  "jgt NaN y = False"
| "jgt x NaN = False"
| "jgt (Fin a) (Fin b) = (b < a)"
| "jgt PosInf y = (y \<noteq> PosInf)"
| "jgt x NegInf = (x \<noteq> NegInf)"
| "jgt x y = False"

fun jge :: "jsnum \<Rightarrow> jsnum \<Rightarrow> bool" where
  "jge NaN y = False"
| "jge x NaN = False"
| "jge x y = (x = y \<or> jgt x y)"

text \<open>A value read from an array is \<open>undefined\<close> (\<open>None\<close>) when the index is out of range;
  used as a number, \<open>undefined\<close> is \<open>NaN\<close>.\<close>

fun num_of_real :: "real option \<Rightarrow> jsnum" where
  "num_of_real None = NaN"
| "num_of_real (Some x) = Fin x"

fun num_of_int :: "int option \<Rightarrow> jsnum" where
  "num_of_int None = NaN"
| "num_of_int (Some k) = Fin (of_int k)"

text \<open>\<open>a[i]\<close> on an array: \<open>undefined\<close> outside \<open>0 .. length - 1\<close>.\<close>

definition index1 :: "'a list \<Rightarrow> int \<Rightarrow> 'a option" where
  "index1 a i = (if 0 \<le> i \<and> i < int (length a) then Some (a ! nat i) else None)"

text \<open>\<open>a[i][j]\<close> on an array of arrays: reading \<open>[j]\<close> of \<open>undefined\<close> throws a TypeError.\<close>

definition index2 :: "'a list list \<Rightarrow> int \<Rightarrow> int \<Rightarrow> error + 'a option" where
  "index2 a i j = (case index1 a i of None \<Rightarrow> Inl TypeError | Some row \<Rightarrow> Inr (index1 row j))"

text \<open>
  \<open>a[i][j]++\<close> on the coverage grid. The generator only increments cells whose column
  is inside the row (the start cell is drawn below \<open>gridSize\<close>, a neighbour is checked
  against \<open>gridSize\<close>, and every row of the grid has \<open>gridSize\<close> cells), so the case of a
  column outside the row never arises; the update leaves the row unchanged there.
\<close>

definition increment2 :: "int list list \<Rightarrow> int \<Rightarrow> int \<Rightarrow> error + int list list" where
  "increment2 a i j =
     (case index1 a i of
        None \<Rightarrow> Inl TypeError
      | Some row \<Rightarrow> Inr (a[nat i := row[nat j := row ! nat j + 1]]))"

text \<open>Decimal digits of a natural number.\<close>

fun digits :: "nat \<Rightarrow> string" where
  "digits n = (if n < 10 then [''0123456789'' ! n]
               else digits (n div 10) @ [''0123456789'' ! (n mod 10)])"

declare digits.simps [simp del]

text \<open>
  \<open>x.toFixed(0)\<close>: the nearest integer, the larger one of two equally near, after the sign
  has been split off. (From \<open>10^21\<close> on JavaScript switches to exponent notation, which
  depends on the binary representation; the model keeps writing the digits there.)
\<close>

fun toFixed0 :: "jsnum \<Rightarrow> string" where
  "toFixed0 NaN = ''NaN''"
| "toFixed0 PosInf = ''Infinity''"
| "toFixed0 NegInf = ''-Infinity''"
| "toFixed0 (Fin x) =
     (if x < 0 then ''-'' @ digits (nat \<lfloor>- x + 1 / 2\<rfloor>) else digits (nat \<lfloor>x + 1 / 2\<rfloor>))"

section \<open>Data model\<close>

record params =
  gridSize :: int
  rangerCount :: int
  maxSteps :: int
  riskMap :: "real list list"
  animalMap :: "bool list list"
  terrainMap :: "int list list"

type_synonym cell = "int \<times> int"

record route =
  rangerId :: int
  path :: "cell list"

record statistics =
  beforeRisk :: jsnum
  afterRisk :: jsnum
  riskReduction :: string
  highRiskCoverage :: string

record result =
  routes :: "route list"
  coverage :: "int list list"
  stats :: statistics

text \<open>
  \<open>Math.random()\<close> returns a number in \<open>[0, 1)\<close>. The random source of a run is a sequence
  \<open>rnd\<close>; its \<open>i\<close>-th draw is the fractional part of \<open>rnd i\<close>, so that exactly the
  sequences over \<open>[0, 1)\<close> are represented.
\<close>

definition random :: "(nat \<Rightarrow> real) \<Rightarrow> nat \<Rightarrow> real" where
  "random rnd i = frac (rnd i)"

section \<open>getNeighbors\<close>

definition directions :: "cell list" where
  "directions = [(-1, 0), (1, 0), (0, -1), (0, 1)]"

fun neighborsLoop :: "params \<Rightarrow> int \<Rightarrow> int \<Rightarrow> cell list \<Rightarrow> cell list \<Rightarrow> error + cell list" where
  "neighborsLoop p row col [] neighbors = Inr neighbors"
| "neighborsLoop p row col ((dr, dc) # ds) neighbors =
     (let nr = row + dr; nc = col + dc in
      if nr \<ge> 0 \<and> nr < gridSize p \<and> nc \<ge> 0 \<and> nc < gridSize p then
        (case index2 (terrainMap p) nr nc of
           Inl e \<Rightarrow> Inl e
         | Inr t \<Rightarrow>
             if t = Some 1 then neighborsLoop p row col ds (neighbors @ [(nr, nc)])
             else neighborsLoop p row col ds neighbors)
      else neighborsLoop p row col ds neighbors)"

definition getNeighbors :: "int \<Rightarrow> int \<Rightarrow> params \<Rightarrow> error + cell list" where
  "getNeighbors row col p = neighborsLoop p row col directions []"

section \<open>runLocalOptimization: route generation\<close>

text \<open>The score of a candidate neighbour, from the three values read for it.\<close>

definition score :: "real option \<Rightarrow> bool option \<Rightarrow> int option \<Rightarrow> jsnum" where
  "score risk animal visited =
     jdiv (jadd (jmul (num_of_real risk) (Fin 2)) (Fin (if animal = Some True then 1 else 0)))
          (jadd (num_of_int visited) (Fin 1))"

text \<open>The loop over the neighbours, carrying \<open>bestNeighbor\<close> and \<open>bestScore\<close>.\<close>

fun scoreLoop :: "params \<Rightarrow> int list list \<Rightarrow> cell list \<Rightarrow> cell \<times> jsnum \<Rightarrow> error + cell \<times> jsnum" where
  "scoreLoop p cov [] best = Inr best"
| "scoreLoop p cov ((nr, nc) # ns) (bestNeighbor, bestScore) =
     (case index2 (riskMap p) nr nc of
        Inl e \<Rightarrow> Inl e
      | Inr risk \<Rightarrow>
          (case index2 (animalMap p) nr nc of
             Inl e \<Rightarrow> Inl e
           | Inr animal \<Rightarrow>
               (case index2 cov nr nc of
                  Inl e \<Rightarrow> Inl e
                | Inr visited \<Rightarrow>
                    if jgt (score risk animal visited) bestScore
                    then scoreLoop p cov ns ((nr, nc), score risk animal visited)
                    else scoreLoop p cov ns (bestNeighbor, bestScore))))"

text \<open>One iteration of the greedy walk produces the next cell, or ends the walk
  (\<open>None\<close>) when there is no neighbour.\<close>

definition walkStep :: "params \<Rightarrow> int list list \<Rightarrow> cell \<Rightarrow> error + (cell \<times> int list list) option" where
  "walkStep p cov cur =
     (case getNeighbors (fst cur) (snd cur) p of
        Inl e \<Rightarrow> Inl e
      | Inr neighbors \<Rightarrow>
          if length neighbors = 0 then Inr None
          else (case scoreLoop p cov neighbors (hd neighbors, NegInf) of
                  Inl e \<Rightarrow> Inl e
                | Inr (bestNeighbor, bestScore) \<Rightarrow>
                    (case increment2 cov (fst bestNeighbor) (snd bestNeighbor) of
                       Inl e \<Rightarrow> Inl e
                     | Inr cov' \<Rightarrow> Inr (Some (bestNeighbor, cov')))))"

text \<open>The walk loop \<open>for (step = 1; step < maxSteps; step++)\<close>, by the number of
  iterations left.\<close>

fun walk :: "params \<Rightarrow> nat \<Rightarrow> cell \<Rightarrow> cell list \<Rightarrow> int list list \<Rightarrow> error + cell list \<times> int list list" where
  "walk p 0 cur pth cov = Inr (pth, cov)"
| "walk p (Suc n) cur pth cov =
     (case walkStep p cov cur of
        Inl e \<Rightarrow> Inl e
      | Inr None \<Rightarrow> Inr (pth, cov)
      | Inr (Some (next, cov')) \<Rightarrow> walk p n next (pth @ [next]) cov')"

text \<open>
  The start selection \<open>do ... while (terrainMap[startRow][startCol] === 0)\<close> draws two
  numbers per iteration and has no bound on the number of iterations: not returning
  is the value \<open>None\<close>. The result carries the number of draws consumed so far.
\<close>

partial_function (option) findStart :: "params \<Rightarrow> (nat \<Rightarrow> real) \<Rightarrow> nat \<Rightarrow> (error + cell \<times> nat) option" where
  "findStart p rnd i =
     (let startRow = \<lfloor>random rnd i * of_int (gridSize p)\<rfloor>;
          startCol = \<lfloor>random rnd (i + 1) * of_int (gridSize p)\<rfloor>
      in case index2 (terrainMap p) startRow startCol of
           Inl e \<Rightarrow> Some (Inl e)
         | Inr t \<Rightarrow>
             if t = Some 0 then findStart p rnd (i + 2)
             else Some (Inr ((startRow, startCol), i + 2)))"

declare findStart.simps [code]

text \<open>
  The body of the loop over the rangers: start selection, the first path cell, the walk,
  and the finished route. The state is the list of routes, the coverage grid and the
  number of draws consumed.
\<close>

type_synonym gen_state = "route list \<times> int list list \<times> nat"

definition ranger :: "params \<Rightarrow> (nat \<Rightarrow> real) \<Rightarrow> int \<Rightarrow> gen_state \<Rightarrow> (error + gen_state) option" where
  "ranger p rnd r s =
     (case s of (rts, cov, i) \<Rightarrow>
        (case findStart p rnd i of
           None \<Rightarrow> None
         | Some (Inl e) \<Rightarrow> Some (Inl e)
         | Some (Inr (start, i')) \<Rightarrow>
             (case increment2 cov (fst start) (snd start) of
                Inl e \<Rightarrow> Some (Inl e)
              | Inr cov1 \<Rightarrow>
                  (case walk p (nat (maxSteps p - 1)) start [start] cov1 of
                     Inl e \<Rightarrow> Some (Inl e)
                   | Inr (pth, cov2) \<Rightarrow>
                       Some (Inr (rts @ [\<lparr>rangerId = r, path = pth\<rparr>], cov2, i'))))))"

text \<open>The loop \<open>for (r = 0; r < rangerCount; r++)\<close>, by the number of iterations left.\<close>

fun rangers :: "params \<Rightarrow> (nat \<Rightarrow> real) \<Rightarrow> nat \<Rightarrow> int \<Rightarrow> gen_state \<Rightarrow> (error + gen_state) option" where
  "rangers p rnd 0 r s = Some (Inr s)"
| "rangers p rnd (Suc k) r s =
     (case ranger p rnd r s of
        None \<Rightarrow> None
      | Some (Inl e) \<Rightarrow> Some (Inl e)
      | Some (Inr s') \<Rightarrow> rangers p rnd k (r + 1) s')"

section \<open>runLocalOptimization: statistics\<close>

text \<open>The four accumulators \<open>totalRisk\<close>, \<open>coveredRisk\<close>, \<open>highRiskCells\<close>,
  \<open>coveredHighRisk\<close>.\<close>

type_synonym acc = "jsnum \<times> jsnum \<times> nat \<times> nat"

text \<open>\<open>coverage[row][col] > 0\<close>.\<close>

definition covered :: "int list list \<Rightarrow> int \<Rightarrow> int \<Rightarrow> error + bool" where
  "covered cov row col =
     (case index2 cov row col of Inl e \<Rightarrow> Inl e | Inr v \<Rightarrow> Inr (jgt (num_of_int v) (Fin 0)))"

definition statsCell :: "params \<Rightarrow> int list list \<Rightarrow> int \<Rightarrow> int \<Rightarrow> acc \<Rightarrow> error + acc" where
  "statsCell p cov row col a =
     (case a of (totalRisk, coveredRisk, highRiskCells, coveredHighRisk) \<Rightarrow>
        (case index2 (terrainMap p) row col of
           Inl e \<Rightarrow> Inl e
         | Inr t \<Rightarrow>
             if t = Some 1 then
               (case index2 (riskMap p) row col of
                  Inl e \<Rightarrow> Inl e
                | Inr rk \<Rightarrow>
                    let risk = num_of_real rk; totalRisk' = jadd totalRisk risk in
                    (case (if jge risk (Fin (7 / 10))
                           then (case covered cov row col of
                                   Inl e \<Rightarrow> Inl e
                                 | Inr c \<Rightarrow>
                                     Inr (highRiskCells + 1,
                                          if c then coveredHighRisk + 1 else coveredHighRisk))
                           else Inr (highRiskCells, coveredHighRisk)) of
                       Inl e \<Rightarrow> Inl e
                     | Inr (highRiskCells', coveredHighRisk') \<Rightarrow>
                         (case covered cov row col of
                            Inl e \<Rightarrow> Inl e
                          | Inr c \<Rightarrow>
                              Inr (totalRisk',
                                   if c then jadd coveredRisk (jmul risk (Fin (2 / 10)))
                                   else jadd coveredRisk risk,
                                   highRiskCells', coveredHighRisk'))))
             else Inr a))"

text \<open>The inner loop over the columns and the outer loop over the rows.\<close>

fun statsCols :: "params \<Rightarrow> int list list \<Rightarrow> int \<Rightarrow> int list \<Rightarrow> acc \<Rightarrow> error + acc" where
  "statsCols p cov row [] a = Inr a"
| "statsCols p cov row (col # cols) a =
     (case statsCell p cov row col a of Inl e \<Rightarrow> Inl e | Inr a' \<Rightarrow> statsCols p cov row cols a')"

fun statsRows :: "params \<Rightarrow> int list list \<Rightarrow> int list \<Rightarrow> acc \<Rightarrow> error + acc" where
  "statsRows p cov [] a = Inr a"
| "statsRows p cov (row # rows) a =
     (case statsCols p cov row [0 .. gridSize p - 1] a of
        Inl e \<Rightarrow> Inl e
      | Inr a' \<Rightarrow> statsRows p cov rows a')"

definition finishStats :: "params \<Rightarrow> acc \<Rightarrow> statistics" where
  "finishStats p a =
     (case a of (totalRisk, coveredRisk, highRiskCells, coveredHighRisk) \<Rightarrow>
        let cells = Fin (of_int (gridSize p * gridSize p));
            before_risk = jdiv totalRisk cells;
            after_risk = jdiv coveredRisk cells;
            reduction =
              toFixed0 (jmul (jdiv (jsub before_risk after_risk) before_risk) (Fin 100));
            highCoverage =
              (if highRiskCells > 0
               then toFixed0 (jmul (jdiv (Fin (real coveredHighRisk)) (Fin (real highRiskCells)))
                                   (Fin 100))
               else ''100'')
        in \<lparr>beforeRisk = before_risk, afterRisk = after_risk,
            riskReduction = reduction @ ''%'', highRiskCoverage = highCoverage @ ''%''\<rparr>)"

definition computeStats :: "params \<Rightarrow> int list list \<Rightarrow> error + statistics" where
  "computeStats p cov =
     (case statsRows p cov [0 .. gridSize p - 1] (Fin 0, Fin 0, 0, 0) of
        Inl e \<Rightarrow> Inl e
      | Inr a \<Rightarrow> Inr (finishStats p a))"

section \<open>runLocalOptimization\<close>

text \<open>
  \<open>Array(gridSize)\<close> throws a RangeError unless \<open>gridSize\<close> is an array length
  (\<open>0 .. 2^32 - 1\<close>); then the coverage grid is \<open>gridSize\<close> rows of \<open>gridSize\<close> zeros.
  The run returns its result together with the number of draws it consumed.
\<close>

definition newCoverage :: "params \<Rightarrow> error + int list list" where
  "newCoverage p =
     (if gridSize p < 0 \<or> gridSize p > 4294967295 then Inl RangeError
      else Inr (replicate (nat (gridSize p)) (replicate (nat (gridSize p)) 0)))"

definition runLocalOptimizationDraws :: "params \<Rightarrow> (nat \<Rightarrow> real) \<Rightarrow> (error + result \<times> nat) option" where
  "runLocalOptimizationDraws p rnd =
     (case newCoverage p of
        Inl e \<Rightarrow> Some (Inl e)
      | Inr cov0 \<Rightarrow>
          (case rangers p rnd (nat (rangerCount p)) 0 ([], cov0, 0) of
             None \<Rightarrow> None
           | Some (Inl e) \<Rightarrow> Some (Inl e)
           | Some (Inr (rts, cov, i)) \<Rightarrow>
               (case computeStats p cov of
                  Inl e \<Rightarrow> Some (Inl e)
                | Inr st \<Rightarrow> Some (Inr (\<lparr>routes = rts, coverage = cov, stats = st\<rparr>, i)))))"

definition runLocalOptimization :: "params \<Rightarrow> (nat \<Rightarrow> real) \<Rightarrow> (error + result) option" where
  "runLocalOptimization p rnd =
     (case runLocalOptimizationDraws p rnd of
        None \<Rightarrow> None
      | Some (Inl e) \<Rightarrow> Some (Inl e)
      | Some (Inr (res, i)) \<Rightarrow> Some (Inr res))"

section \<open>Well-formed inputs and the notions the properties are stated with\<close>

text \<open>A grid of the given side: that many rows of that many cells.\<close>

definition shape :: "int \<Rightarrow> 'a list list \<Rightarrow> bool" where
  "shape n a \<longleftrightarrow> length a = nat n \<and> list_all (\<lambda>row. length row = nat n) a"

text \<open>
  The input contract of the generator: a positive \<open>gridSize\<close> (an array length, so at
  most \<open>2^32 - 1\<close>), three grids of that side, and terrain cells that are \<open>0\<close> or \<open>1\<close>.
  Nothing is asked of \<open>rangerCount\<close>, \<open>maxSteps\<close> or the risk values.
\<close>

definition valid_params :: "params \<Rightarrow> bool" where
  "valid_params p \<longleftrightarrow>
     0 < gridSize p \<and> gridSize p \<le> 4294967295 \<and>
     shape (gridSize p) (riskMap p) \<and>
     shape (gridSize p) (animalMap p) \<and>
     shape (gridSize p) (terrainMap p) \<and>
     list_all (list_all (\<lambda>t. t = 0 \<or> t = 1)) (terrainMap p)"

definition inGrid :: "params \<Rightarrow> cell \<Rightarrow> bool" where
  "inGrid p x \<longleftrightarrow> 0 \<le> fst x \<and> fst x < gridSize p \<and> 0 \<le> snd x \<and> snd x < gridSize p"

definition passable :: "params \<Rightarrow> cell \<Rightarrow> bool" where
  "passable p x \<longleftrightarrow> inGrid p x \<and> index2 (terrainMap p) (fst x) (snd x) = Inr (Some 1)"

text \<open>One orthogonal unit step: same row or same column, Manhattan distance 1.\<close>

definition adjacent :: "cell \<Rightarrow> cell \<Rightarrow> bool" where
  "adjacent x y \<longleftrightarrow>
     (fst x = fst y \<and> \<bar>snd x - snd y\<bar> = 1) \<or> (snd x = snd y \<and> \<bar>fst x - fst y\<bar> = 1)"

text \<open>The candidates of a walk step, as the specification lists them: the passable
  cells among up, down, left, right, in that order.\<close>

definition candidates :: "params \<Rightarrow> cell \<Rightarrow> cell list" where
  "candidates p cur =
     filter (passable p)
       [(fst cur - 1, snd cur), (fst cur + 1, snd cur), (fst cur, snd cur - 1), (fst cur, snd cur + 1)]"

text \<open>The entry of a grid at a cell inside it.\<close>

definition cellAt :: "'a list list \<Rightarrow> cell \<Rightarrow> 'a" where
  "cellAt a x = a ! nat (fst x) ! nat (snd x)"

text \<open>The score of the specification, on a cell of the grid:
  \<open>(risk * 2 + (animal ? 1 : 0)) / (coverage + 1)\<close>.\<close>

definition cellScore :: "params \<Rightarrow> int list list \<Rightarrow> cell \<Rightarrow> real" where
  "cellScore p cov x =
     (cellAt (riskMap p) x * 2 + (if cellAt (animalMap p) x then 1 else 0))
     / (of_int (cellAt cov x) + 1)"

text \<open>The first maximum of a function over a non-empty list, given as head and tail: a
  later element replaces the current best only when its value is strictly greater.\<close>

fun firstMax :: "('a \<Rightarrow> real) \<Rightarrow> 'a \<Rightarrow> 'a list \<Rightarrow> 'a" where
  "firstMax f b [] = b"
| "firstMax f b (x # xs) = (if f b < f x then firstMax f x xs else firstMax f b xs)"

text \<open>The coverage grid after one more visit of a cell.\<close>

definition visit :: "int list list \<Rightarrow> cell \<Rightarrow> int list list" where
  "visit cov x = cov[nat (fst x) := (cov ! nat (fst x))[nat (snd x) := cellAt cov x + 1]]"

text \<open>What holds of the coverage grid throughout a run: it has the side of the grid and
  its counters are not negative.\<close>

definition coverage_ok :: "params \<Rightarrow> int list list \<Rightarrow> bool" where
  "coverage_ok p cov \<longleftrightarrow> shape (gridSize p) cov \<and> list_all (list_all (\<lambda>v. 0 \<le> v)) cov"

text \<open>What holds of every finished route: at least the start cell and at most
  \<open>maxSteps\<close> cells (one cell when \<open>maxSteps\<close> is below 1), all passable, each next to
  its predecessor.\<close>

definition route_ok :: "params \<Rightarrow> route \<Rightarrow> bool" where
  "route_ok p rt \<longleftrightarrow>
     path rt \<noteq> [] \<and> length (path rt) \<le> 1 + nat (maxSteps p - 1) \<and>
     list_all (passable p) (path rt) \<and> successively adjacent (path rt)"

text \<open>
  The reference definition of the statistics. The cells of the grid, row by row; the
  sum of the risk of the passable cells among given cells; the same sum with the risk
  of a covered cell multiplied by 0.2; the passable cells of risk at least 0.7; the
  cells of risk at least 0.7, passable or not; and the rounded percentage of covered
  cells among given cells, 100 when there is none.
\<close>

definition cells :: "params \<Rightarrow> cell list" where
  "cells p = List.product [0 .. gridSize p - 1] [0 .. gridSize p - 1]"

definition riskSum :: "params \<Rightarrow> cell list \<Rightarrow> real" where
  "riskSum p xs = (\<Sum>x\<leftarrow>filter (passable p) xs. cellAt (riskMap p) x)"

definition mitigatedSum :: "params \<Rightarrow> int list list \<Rightarrow> cell list \<Rightarrow> real" where
  "mitigatedSum p cov xs =
     (\<Sum>x\<leftarrow>filter (passable p) xs.
        if 0 < cellAt cov x then cellAt (riskMap p) x * (2 / 10) else cellAt (riskMap p) x)"

definition highRiskPassable :: "params \<Rightarrow> cell list \<Rightarrow> cell list" where
  "highRiskPassable p xs = filter (\<lambda>x. passable p x \<and> 7 / 10 \<le> cellAt (riskMap p) x) xs"


definition coveredCells :: "int list list \<Rightarrow> cell list \<Rightarrow> cell list" where
  "coveredCells cov xs = filter (\<lambda>x. 0 < cellAt cov x) xs"



text \<open>A random source whose every draw is the same number.\<close>

definition constRnd :: "real \<Rightarrow> nat \<Rightarrow> real" where
  "constRnd x i = x"

text \<open>A 2-by-2 grid whose passable cells are the two cells of the top row, without
  risk and without animals; one ranger, three steps.\<close>

definition corridor :: params where
  "corridor =
     \<lparr>gridSize = 2, rangerCount = 1, maxSteps = 3,
      riskMap = [[0, 0], [0, 0]],
      animalMap = [[False, False], [False, False]],
      terrainMap = [[1, 1], [0, 0]]\<rparr>"

text \<open>A 2-by-2 grid, all passable, risk 0 everywhere; one ranger, two steps.\<close>

definition flatZero :: params where
  "flatZero =
     \<lparr>gridSize = 2, rangerCount = 1, maxSteps = 2,
      riskMap = [[0, 0], [0, 0]],
      animalMap = [[False, False], [False, False]],
      terrainMap = [[1, 1], [1, 1]]\<rparr>"


text \<open>A random source whose second draw is 0.6 and whose other draws are 0.\<close>

definition secondRnd :: "nat \<Rightarrow> real" where
  "secondRnd i = (if i = 1 then 6 / 10 else 0)"

text \<open>A 2-by-2 grid whose passable cells are the two cells of the top row, both of high
  risk; the impassable cell below the first one carries a risk value too. Two rangers,
  five steps.\<close>

definition patrol :: params where
  "patrol =
     \<lparr>gridSize = 2, rangerCount = 2, maxSteps = 5,
      riskMap = [[8 / 10, 9 / 10], [9 / 10, 0]],
      animalMap = [[False, True], [False, False]],
      terrainMap = [[1, 1], [0, 0]]\<rparr>"

text \<open>What the generator returns on \<open>patrol\<close> when the first ranger's draws are 0 and 0.6
  and the second ranger's draws are 0 and 0.\<close>

definition patrolResult :: result where
  "patrolResult =
     \<lparr>routes = [\<lparr>rangerId = 0, path = [(0, 1), (0, 0), (0, 1), (0, 0), (0, 1)]\<rparr>,
                \<lparr>rangerId = 1, path = [(0, 0), (0, 1), (0, 0), (0, 1), (0, 0)]\<rparr>],
      coverage = [[5, 5], [0, 0]],
      stats = \<lparr>beforeRisk = Fin (17 / 40), afterRisk = Fin (17 / 200),
               riskReduction = ''80%'', highRiskCoverage = ''100%''\<rparr>\<rparr>"


text \<open>Every cell of the terrain grid is impassable.\<close>

definition all_impassable :: "params \<Rightarrow> bool" where
  "all_impassable p \<longleftrightarrow> list_all (list_all (\<lambda>t. t = 0)) (terrainMap p)"

text \<open>A grid of one impassable cell; one ranger, one step.\<close>

definition blocked :: params where
  "blocked =
     \<lparr>gridSize = 1, rangerCount = 1, maxSteps = 1,
      riskMap = [[0]], animalMap = [[False]], terrainMap = [[0]]\<rparr>"

text \<open>The corridor grid with a negative \<open>gridSize\<close>, with no ranger, and with no step.\<close>

definition negativeGrid :: params where
  "negativeGrid = corridor\<lparr>gridSize := - 1\<rparr>"

definition noRangers :: params where
  "noRangers = corridor\<lparr>rangerCount := 0\<rparr>"

definition noSteps :: params where
  "noSteps = corridor\<lparr>maxSteps := 0\<rparr>"

text \<open>A random source with the first four draws of \<open>secondRnd\<close> and other draws
  afterwards.\<close>

definition laterRnd :: "nat \<Rightarrow> real" where
  "laterRnd i = (if i = 1 then 6 / 10 else if i < 4 then 0 else 1 / 2)"

section \<open>Properties\<close>

subsection \<open>Reading the grids, neighbours and scores on a well-formed input\<close>

lemma index2_shape:
  "shape n a \<Longrightarrow> 0 \<le> i \<Longrightarrow> i < n \<Longrightarrow> 0 \<le> j \<Longrightarrow> j < n \<Longrightarrow>
   index2 a i j = Inr (Some (a ! nat i ! nat j))"
  by (simp add: index2_def index1_def shape_def list_all_length)

lemma terrain_01:
  assumes "valid_params p" "inGrid p x"
  shows "terrainMap p ! nat (fst x) ! nat (snd x) = 0 \<or> terrainMap p ! nat (fst x) ! nat (snd x) = 1"
  using assms by (simp add: valid_params_def inGrid_def shape_def list_all_length)

lemma score_Some:
  "0 \<le> v \<Longrightarrow>
   score (Some rk) (Some an) (Some v) = Fin ((rk * 2 + (if an then 1 else 0)) / (of_int v + 1))"
  by (simp add: score_def)

lemma coverage_nonneg: "coverage_ok p cov \<Longrightarrow> inGrid p x \<Longrightarrow> 0 \<le> cellAt cov x"
  by (simp add: coverage_ok_def shape_def inGrid_def cellAt_def list_all_length)


lemma grid_lookup:
  "shape (gridSize p) a \<Longrightarrow> inGrid p x \<Longrightarrow>
   index2 a (fst x) (snd x) = Inr (Some (a ! nat (fst x) ! nat (snd x)))"
  by (rule index2_shape [where n = "gridSize p"]) (simp_all add: inGrid_def)

lemma terrain_lookup:
  "valid_params p \<Longrightarrow> inGrid p x \<Longrightarrow>
   index2 (terrainMap p) (fst x) (snd x) = Inr (Some (terrainMap p ! nat (fst x) ! nat (snd x)))"
  by (rule grid_lookup) (simp_all add: valid_params_def)

lemma neighborsLoop_valid:
  "valid_params p \<Longrightarrow>
   neighborsLoop p row col ds acc =
     Inr (acc @ filter (passable p) (map (\<lambda>d. (row + fst d, col + snd d)) ds))"
proof (induction ds arbitrary: acc)
  case Nil
  then show ?case by simp
next
  case (Cons d ds)
  obtain dr dc where d: "d = (dr, dc)" by (cases d)
  show ?case
  proof (cases "inGrid p (row + dr, col + dc)")
    case True
    with Cons.prems terrain_lookup [of p "(row + dr, col + dc)"] show ?thesis
      by (simp add: d Cons.IH passable_def inGrid_def)
  next
    case False
    with Cons.prems show ?thesis
      by (auto simp add: d Cons.IH passable_def inGrid_def Let_def)
  qed
qed

lemma getNeighbors_valid:
  "valid_params p \<Longrightarrow> getNeighbors (fst cur) (snd cur) p = Inr (candidates p cur)"
  by (simp add: getNeighbors_def neighborsLoop_valid candidates_def directions_def
        del: neighborsLoop.simps)

lemma candidates_passable: "x \<in> set (candidates p cur) \<Longrightarrow> passable p x"
  by (simp add: candidates_def del: filter.simps)

lemma candidates_adjacent: "x \<in> set (candidates p cur) \<Longrightarrow> adjacent cur x"
  by (auto simp add: candidates_def adjacent_def simp del: filter.simps)

lemma firstMax_mem: "firstMax f b xs \<in> set (b # xs)"
  by (induction xs arbitrary: b) auto



lemma cell_reads:
  assumes "valid_params p" "coverage_ok p cov" "inGrid p (nr, nc)"
  shows "index2 (riskMap p) nr nc = Inr (Some (cellAt (riskMap p) (nr, nc)))"
    and "index2 (animalMap p) nr nc = Inr (Some (cellAt (animalMap p) (nr, nc)))"
    and "index2 cov nr nc = Inr (Some (cellAt cov (nr, nc)))"
    and "score (Some (cellAt (riskMap p) (nr, nc))) (Some (cellAt (animalMap p) (nr, nc)))
              (Some (cellAt cov (nr, nc))) = Fin (cellScore p cov (nr, nc))"
proof -
  from assms have sh: "shape (gridSize p) (riskMap p)" "shape (gridSize p) (animalMap p)"
      "shape (gridSize p) cov"
    by (simp_all add: valid_params_def coverage_ok_def)
  show "index2 (riskMap p) nr nc = Inr (Some (cellAt (riskMap p) (nr, nc)))"
    using grid_lookup [OF sh(1) assms(3)] by (simp add: cellAt_def)
  show "index2 (animalMap p) nr nc = Inr (Some (cellAt (animalMap p) (nr, nc)))"
    using grid_lookup [OF sh(2) assms(3)] by (simp add: cellAt_def)
  show "index2 cov nr nc = Inr (Some (cellAt cov (nr, nc)))"
    using grid_lookup [OF sh(3) assms(3)] by (simp add: cellAt_def)
  show "score (Some (cellAt (riskMap p) (nr, nc))) (Some (cellAt (animalMap p) (nr, nc)))
              (Some (cellAt cov (nr, nc))) = Fin (cellScore p cov (nr, nc))"
    using coverage_nonneg [OF assms(2,3)] by (simp add: score_Some cellScore_def)
qed

lemma scoreLoop_valid:
  assumes "valid_params p" "coverage_ok p cov"
  shows "list_all (inGrid p) ns \<Longrightarrow>
         scoreLoop p cov ns (b, Fin (cellScore p cov b)) =
           Inr (firstMax (cellScore p cov) b ns,
                Fin (cellScore p cov (firstMax (cellScore p cov) b ns)))"
proof (induction ns arbitrary: b)
  case Nil
  then show ?case by simp
next
  case (Cons x ns)
  obtain nr nc where x: "x = (nr, nc)" by (cases x)
  from Cons.prems have g: "inGrid p (nr, nc)" and rest: "list_all (inGrid p) ns"
    by (simp_all add: x)
  show ?case
    by (simp add: x cell_reads [OF assms g] Cons.IH [OF rest])
qed

lemma scoreLoop_start:
  assumes "valid_params p" "coverage_ok p cov" "list_all (inGrid p) (x # ns)"
  shows "scoreLoop p cov (x # ns) (x, NegInf) =
           Inr (firstMax (cellScore p cov) x ns,
                Fin (cellScore p cov (firstMax (cellScore p cov) x ns)))"
proof -
  obtain nr nc where x: "x = (nr, nc)" by (cases x)
  from assms(3) have g: "inGrid p (nr, nc)" and rest: "list_all (inGrid p) ns"
    by (simp_all add: x)
  show ?thesis
    by (simp add: x cell_reads [OF assms(1,2) g] scoreLoop_valid [OF assms(1,2) rest])
qed

lemma increment2_visit:
  assumes "coverage_ok p cov" "inGrid p x"
  shows "increment2 cov (fst x) (snd x) = Inr (visit cov x)"
  using assms
  by (simp add: increment2_def index1_def visit_def cellAt_def coverage_ok_def shape_def inGrid_def)

lemma visit_ok:
  assumes "coverage_ok p cov" "inGrid p x"
  shows "coverage_ok p (visit cov x)"
proof -
  from assms have len: "length cov = nat (gridSize p)"
    and rows: "\<forall>i < length cov. length (cov ! i) = nat (gridSize p)"
    and nn: "\<forall>i < length cov. \<forall>j < length (cov ! i). 0 \<le> cov ! i ! j"
    by (simp_all add: coverage_ok_def shape_def list_all_length)
  from assms(2) len have i: "nat (fst x) < length cov" by (simp add: inGrid_def)
  from assms(2) rows i have j: "nat (snd x) < length (cov ! nat (fst x))"
    by (simp add: inGrid_def)
  show ?thesis
    unfolding coverage_ok_def shape_def list_all_length visit_def cellAt_def
    using len rows nn i j by (auto simp add: nth_list_update)
qed

lemma visit_cellAt:
  assumes "coverage_ok p cov" "inGrid p x" "inGrid p y"
  shows "cellAt (visit cov x) y = cellAt cov y + (if x = y then 1 else 0)"
proof -
  from assms have len: "length cov = nat (gridSize p)"
    and rows: "\<forall>i < length cov. length (cov ! i) = nat (gridSize p)"
    by (simp_all add: coverage_ok_def shape_def list_all_length)
  from assms(2) len have i: "nat (fst x) < length cov" by (simp add: inGrid_def)
  from assms(2) rows i have j: "nat (snd x) < length (cov ! nat (fst x))"
    by (simp add: inGrid_def)
  from assms(2,3) have eq: "x = y \<longleftrightarrow> nat (fst x) = nat (fst y) \<and> nat (snd x) = nat (snd y)"
    by (auto simp add: inGrid_def prod_eq_iff)
  show ?thesis
    unfolding visit_def cellAt_def using i j eq
    by (auto simp add: nth_list_update)
qed

lemma walkStep_valid:
  assumes "valid_params p" "coverage_ok p cov"
  shows "walkStep p cov cur =
           Inr (case candidates p cur of
                  [] \<Rightarrow> None
                | x # ns \<Rightarrow> Some (firstMax (cellScore p cov) x ns,
                                  visit cov (firstMax (cellScore p cov) x ns)))"
proof (cases "candidates p cur")
  case Nil
  with assms show ?thesis
    by (simp add: walkStep_def getNeighbors_valid)
next
  case (Cons x ns)
  let ?b = "firstMax (cellScore p cov) x ns"
  have all: "list_all (inGrid p) (x # ns)"
    using candidates_passable [of _ p cur] Cons
    by (auto simp add: list_all_iff passable_def)
  have "?b \<in> set (x # ns)" by (rule firstMax_mem)
  with all have "inGrid p ?b" by (auto simp add: list_all_iff)
  with assms Cons all show ?thesis
    by (simp add: walkStep_def getNeighbors_valid scoreLoop_start increment2_visit
             del: scoreLoop.simps)
qed

subsection \<open>Concrete runs\<close>

lemma corridor_valid: "valid_params corridor"
  by (simp add: valid_params_def corridor_def shape_def)

lemma flatZero_valid: "valid_params flatZero"
  by (simp add: valid_params_def flatZero_def shape_def)

lemma corridor_run:
  "runLocalOptimization corridor (constRnd 0) =
     Some (Inr \<lparr>routes = [\<lparr>rangerId = 0, path = [(0, 0), (0, 1), (0, 0)]\<rparr>],
                coverage = [[2, 1], [0, 0]],
                stats = \<lparr>beforeRisk = Fin 0, afterRisk = Fin 0,
                         riskReduction = ''NaN%'', highRiskCoverage = ''100%''\<rparr>\<rparr>)"
  by code_simp

lemma flatZero_run:
  "runLocalOptimization flatZero (constRnd 0) =
     Some (Inr \<lparr>routes = [\<lparr>rangerId = 0, path = [(0, 0), (1, 0)]\<rparr>],
                coverage = [[1, 0], [1, 0]],
                stats = \<lparr>beforeRisk = Fin 0, afterRisk = Fin 0,
                         riskReduction = ''NaN%'', highRiskCoverage = ''100%''\<rparr>\<rparr>)"
  by code_simp

text \<open>
  C10. Routes need not be simple paths. On the corridor grid (a valid input: two
  passable cells side by side) with three steps, the ranger that starts on the left
  cell walks to the right cell and back: the returned route holds the start cell twice.
\<close>

theorem C10_route_revisits_cell:
  "\<exists>rnd res rt. runLocalOptimization corridor rnd = Some (Inr res)
      \<and> rt \<in> set (routes res) \<and> \<not> distinct (path rt)"
proof -
  let ?rt = "\<lparr>rangerId = 0, path = [(0, 0), (0, 1), (0, 0)]\<rparr> :: route"
  have "\<not> distinct (path ?rt)" by simp
  with corridor_run show ?thesis
    by (intro exI [of _ "constRnd 0"] exI [of _ ?rt] exI conjI) auto
qed

text \<open>
  C7. With risk 0 everywhere \<open>beforeRisk\<close> is 0, and the code divides by it without a
  guard: \<open>(0 - 0) / 0\<close> is \<open>NaN\<close>, and the reported \<open>riskReduction\<close> is the string
  \<open>NaN%\<close>, not \<open>0%\<close>. (The division for \<open>highRiskCoverage\<close>, two lines below in the
  source, is guarded against its zero denominator.)
\<close>

theorem C7_zero_baseline_reports_NaN:
  "\<exists>res. runLocalOptimization flatZero (constRnd 0) = Some (Inr res)
      \<and> beforeRisk (stats res) = Fin 0
      \<and> riskReduction (stats res) = ''NaN%''
      \<and> riskReduction (stats res) \<noteq> ''0%''"
  by (simp add: flatZero_run)


subsection \<open>The greedy choice\<close>



subsection \<open>Invariants of route generation\<close>

lemma draw_in_range:
  assumes "0 < n"
  shows "0 \<le> \<lfloor>random rnd i * of_int n\<rfloor>" and "\<lfloor>random rnd i * of_int n\<rfloor> < n"
proof -
  have f: "0 \<le> frac (rnd i)" "frac (rnd i) < 1"
    by (simp_all add: frac_lt_1)
  from assms f show "0 \<le> \<lfloor>random rnd i * of_int n\<rfloor>"
    by (simp add: random_def)
  from assms f have "frac (rnd i) * of_int n < 1 * of_int n"
    by (intro mult_strict_right_mono) simp_all
  then show "\<lfloor>random rnd i * of_int n\<rfloor> < n"
    by (simp add: random_def floor_less_iff)
qed

lemma findStart_valid:
  assumes "findStart p rnd i = Some r"
  shows "valid_params p \<longrightarrow> (\<exists>start i'. r = Inr (start, i') \<and> passable p start \<and> i < i')"
proof (rule findStart.raw_induct
    [where P = "\<lambda>p rnd i r. valid_params p \<longrightarrow>
                  (\<exists>start i'. r = Inr (start, i') \<and> passable p start \<and> i < i')",
     OF _ assms], goal_cases)
  case (1 f p rnd i r)
  show ?case
  proof
    assume v: "valid_params p"
    let ?start = "(\<lfloor>random rnd i * of_int (gridSize p)\<rfloor>, \<lfloor>random rnd (i + 1) * of_int (gridSize p)\<rfloor>)"
    from v have "0 < gridSize p" by (simp add: valid_params_def)
    then have g: "inGrid p ?start"
      unfolding inGrid_def fst_conv snd_conv by (intro conjI draw_in_range)
    note l = terrain_lookup [OF v g, simplified]
    from terrain_01 [OF v g] show "\<exists>start i'. r = Inr (start, i') \<and> passable p start \<and> i < i'"
    proof
      assume z: "terrainMap p ! nat (fst ?start) ! nat (snd ?start) = 0"
      with 1(2) l have "f p rnd (i + 2) = Some r"
        by (simp add: Let_def)
      from 1(1) [OF this] v show ?thesis by force
    next
      assume o: "terrainMap p ! nat (fst ?start) ! nat (snd ?start) = 1"
      with 1(2) l have "r = Inr (?start, i + 2)"
        by (simp add: Let_def)
      moreover from o l g have "passable p ?start"
        by (simp add: passable_def)
      ultimately show ?thesis by simp
    qed
  qed
qed

lemma walk_valid:
  assumes "valid_params p"
  shows "coverage_ok p cov \<Longrightarrow>
         \<exists>ext cov'. walk p n cur pth cov = Inr (pth @ ext, cov') \<and> length ext \<le> n
            \<and> list_all (passable p) ext \<and> successively adjacent (cur # ext)
            \<and> coverage_ok p cov'
            \<and> (\<forall>y. inGrid p y \<longrightarrow> cellAt cov' y = cellAt cov y + int (count_list ext y))"
proof (induction n arbitrary: cur pth cov)
  case 0
  then show ?case by simp
next
  case (Suc n)
  show ?case
  proof (cases "candidates p cur")
    case Nil
    with Suc.prems show ?thesis
      by (simp add: walkStep_valid [OF assms])
  next
    case (Cons x ns)
    let ?b = "firstMax (cellScore p cov) x ns"
    have "?b \<in> set (candidates p cur)"
      unfolding Cons by (rule firstMax_mem)
    then have pb: "passable p ?b" and ab: "adjacent cur ?b"
      by (simp_all add: candidates_passable candidates_adjacent)
    then have gb: "inGrid p ?b" by (simp add: passable_def)
    have ok: "coverage_ok p (visit cov ?b)"
      by (rule visit_ok [OF Suc.prems gb])
    from Suc.IH [OF ok, of ?b "pth @ [?b]"] obtain ext cov'
      where w: "walk p n ?b (pth @ [?b]) (visit cov ?b) = Inr ((pth @ [?b]) @ ext, cov')"
        and len: "length ext \<le> n" and pass: "list_all (passable p) ext"
        and adj: "successively adjacent (?b # ext)" and ok': "coverage_ok p cov'"
        and cnt: "\<forall>y. inGrid p y \<longrightarrow> cellAt cov' y = cellAt (visit cov ?b) y + int (count_list ext y)"
      by blast
    have 1: "walk p (Suc n) cur pth cov = Inr (pth @ (?b # ext), cov')"
      using w by (simp add: walkStep_valid [OF assms Suc.prems] Cons)
    have 2: "\<forall>y. inGrid p y \<longrightarrow> cellAt cov' y = cellAt cov y + int (count_list (?b # ext) y)"
      using cnt visit_cellAt [OF Suc.prems gb] by auto
    from 1 2 len pass adj ok' pb ab show ?thesis
      by (intro exI [of _ "?b # ext"] exI [of _ cov']) simp
  qed
qed


lemma ranger_valid:
  assumes "valid_params p" "coverage_ok p cov" "ranger p rnd r (rts, cov, i) = Some res"
  shows "\<exists>start i' rt cov'. findStart p rnd i = Some (Inr (start, i')) \<and> i < i'
           \<and> res = Inr (rts @ [rt], cov', i') \<and> rangerId rt = r \<and> hd (path rt) = start
           \<and> route_ok p rt \<and> coverage_ok p cov'
           \<and> (\<forall>y. inGrid p y \<longrightarrow> cellAt cov' y = cellAt cov y + int (count_list (path rt) y))"
proof -
  from assms(3) obtain fr where fr: "findStart p rnd i = Some fr"
    by (cases "findStart p rnd i") (simp_all add: ranger_def)
  from findStart_valid [OF fr] assms(1) obtain start i'
    where f: "findStart p rnd i = Some (Inr (start, i'))" and ps: "passable p start" and lt: "i < i'"
    using fr by auto
  from ps have gs: "inGrid p start" by (simp add: passable_def)
  note inc = increment2_visit [OF assms(2) gs]
  from walk_valid [OF assms(1) visit_ok [OF assms(2) gs], of "nat (maxSteps p - 1)" start "[start]"]
  obtain ext cov' where w: "walk p (nat (maxSteps p - 1)) start [start] (visit cov start) = Inr ([start] @ ext, cov')"
    and len: "length ext \<le> nat (maxSteps p - 1)" and pass: "list_all (passable p) ext"
    and adj: "successively adjacent (start # ext)" and ok: "coverage_ok p cov'"
    and cnt: "\<forall>y. inGrid p y \<longrightarrow> cellAt cov' y = cellAt (visit cov start) y + int (count_list ext y)"
    by blast
  let ?rt = "\<lparr>rangerId = r, path = start # ext\<rparr>"
  from assms(3) f inc w have res: "res = Inr (rts @ [?rt], cov', i')"
    by (simp add: ranger_def)
  have rok: "route_ok p ?rt"
    using len pass adj ps by (simp add: route_ok_def)
  have c: "\<forall>y. inGrid p y \<longrightarrow> cellAt cov' y = cellAt cov y + int (count_list (path ?rt) y)"
    using cnt visit_cellAt [OF assms(2) gs] by auto
  from f lt res rok ok c show ?thesis
    by (intro exI [of _ start] exI [of _ i'] exI [of _ ?rt] exI [of _ cov']) simp
qed

lemma rangers_valid:
  assumes "valid_params p"
  shows "coverage_ok p cov \<Longrightarrow> rangers p rnd k r (rts, cov, i) = Some res \<Longrightarrow>
         \<exists>new cov' i'. res = Inr (rts @ new, cov', i')
           \<and> map rangerId new = map (\<lambda>j. r + int j) [0..<k]
           \<and> list_all (route_ok p) new \<and> coverage_ok p cov'
           \<and> (\<forall>y. inGrid p y \<longrightarrow>
                 cellAt cov' y = cellAt cov y + int (sum_list (map (\<lambda>rt. count_list (path rt) y) new)))"
proof (induction k arbitrary: r rts cov i res)
  case 0
  then show ?case by auto
next
  case (Suc k)
  from Suc.prems(2) obtain rr where rr: "ranger p rnd r (rts, cov, i) = Some rr"
    by (cases "ranger p rnd r (rts, cov, i)") simp_all
  from ranger_valid [OF assms Suc.prems(1) rr] obtain rt cov1 i1
    where r1: "rr = Inr (rts @ [rt], cov1, i1)" and id: "rangerId rt = r"
      and rok: "route_ok p rt" and ok1: "coverage_ok p cov1"
      and c1: "\<forall>y. inGrid p y \<longrightarrow> cellAt cov1 y = cellAt cov y + int (count_list (path rt) y)"
    by blast
  from Suc.prems(2) rr r1 have "rangers p rnd k (r + 1) (rts @ [rt], cov1, i1) = Some res"
    by simp
  from Suc.IH [OF ok1 this] obtain new cov' i'
    where res: "res = Inr ((rts @ [rt]) @ new, cov', i')"
      and ids: "map rangerId new = map (\<lambda>j. r + 1 + int j) [0..<k]"
      and oks: "list_all (route_ok p) new" and ok': "coverage_ok p cov'"
      and c: "\<forall>y. inGrid p y \<longrightarrow>
                cellAt cov' y = cellAt cov1 y + int (sum_list (map (\<lambda>rt. count_list (path rt) y) new))"
    by blast
  have ids': "map rangerId (rt # new) = map (\<lambda>j. r + int j) [0..<Suc k]"
    using id ids by (simp add: map_upt_Suc add.assoc del: upt_Suc)
  have c': "\<forall>y. inGrid p y \<longrightarrow>
              cellAt cov' y = cellAt cov y + int (sum_list (map (\<lambda>rt. count_list (path rt) y) (rt # new)))"
    using c c1 by simp
  from res ids' oks rok ok' c' show ?case
    by (intro exI [of _ "rt # new"] exI [of _ cov'] exI [of _ i']) simp
qed

lemma newCoverage_valid:
  assumes "valid_params p"
  shows "\<exists>cov0. newCoverage p = Inr cov0 \<and> coverage_ok p cov0 \<and> (\<forall>y. inGrid p y \<longrightarrow> cellAt cov0 y = 0)"
  using assms
  by (simp add: newCoverage_def valid_params_def coverage_ok_def shape_def list_all_length
        inGrid_def cellAt_def)

lemma run_unfold:
  assumes "runLocalOptimization p rnd = Some (Inr res)"
  shows "\<exists>cov0 n. newCoverage p = Inr cov0
           \<and> rangers p rnd (nat (rangerCount p)) 0 ([], cov0, 0) = Some (Inr (routes res, coverage res, n))
           \<and> computeStats p (coverage res) = Inr (stats res)"
  using assms
  by (auto simp add: runLocalOptimization_def runLocalOptimizationDraws_def
        split: sum.splits option.splits prod.splits)

lemma run_valid:
  assumes "valid_params p" "runLocalOptimization p rnd = Some (Inr res)"
  shows "map rangerId (routes res) = map int [0..<nat (rangerCount p)]"
    and "list_all (route_ok p) (routes res)"
    and "coverage_ok p (coverage res)"
    and "inGrid p y \<Longrightarrow>
           cellAt (coverage res) y = int (sum_list (map (\<lambda>rt. count_list (path rt) y) (routes res)))"
    and "computeStats p (coverage res) = Inr (stats res)"
proof -
  from run_unfold [OF assms(2)] obtain cov0 n where n: "newCoverage p = Inr cov0"
    and r: "rangers p rnd (nat (rangerCount p)) 0 ([], cov0, 0) = Some (Inr (routes res, coverage res, n))"
    and s: "computeStats p (coverage res) = Inr (stats res)"
    by blast
  from newCoverage_valid [OF assms(1)] n have ok0: "coverage_ok p cov0"
    and z: "\<forall>y. inGrid p y \<longrightarrow> cellAt cov0 y = 0"
    by auto
  from rangers_valid [OF assms(1) ok0 r]
  have ids: "map rangerId (routes res) = map (\<lambda>j. 0 + int j) [0..<nat (rangerCount p)]"
    and oks: "list_all (route_ok p) (routes res)" and ok: "coverage_ok p (coverage res)"
    and c: "\<forall>y. inGrid p y \<longrightarrow>
              cellAt (coverage res) y
                = cellAt cov0 y + int (sum_list (map (\<lambda>rt. count_list (path rt) y) (routes res)))"
    by auto
  from ids show "map rangerId (routes res) = map int [0..<nat (rangerCount p)]"
    by simp
  from oks show "list_all (route_ok p) (routes res)" .
  from ok show "coverage_ok p (coverage res)" .
  from s show "computeStats p (coverage res) = Inr (stats res)" .
  assume "inGrid p y"
  with c z show "cellAt (coverage res) y = int (sum_list (map (\<lambda>rt. count_list (path rt) y) (routes res)))"
    by (simp del: split_paired_All)
qed

lemma patrol_valid: "valid_params patrol"
  by (simp add: valid_params_def patrol_def shape_def)


lemma patrol_run: "runLocalOptimizationDraws patrol secondRnd = Some (Inr (patrolResult, 4))"
  by code_simp

lemma patrol_run': "runLocalOptimization patrol secondRnd = Some (Inr patrolResult)"
  by (simp add: runLocalOptimization_def patrol_run)


lemma passable_terrain:
  assumes "valid_params p" "passable p x"
  shows "terrainMap p ! nat (fst x) ! nat (snd x) = 1"
  using assms terrain_lookup [of p x] by (simp add: passable_def)

subsection \<open>Routes\<close>

text \<open>
  C2. On a well-formed input, every cell of every returned route lies inside the grid
  and is passable, and every two consecutive cells of a route are one orthogonal unit
  step apart.
\<close>

theorem C2_routes_on_passable_cells_and_connected:
  assumes "valid_params p" "runLocalOptimization p rnd = Some (Inr res)" "rt \<in> set (routes res)"
  shows "(\<forall>x \<in> set (path rt).
            0 \<le> fst x \<and> fst x < gridSize p \<and> 0 \<le> snd x \<and> snd x < gridSize p
            \<and> terrainMap p ! nat (fst x) ! nat (snd x) = 1)
       \<and> (\<forall>k. Suc k < length (path rt) \<longrightarrow> adjacent (path rt ! k) (path rt ! Suc k))"
proof -
  from run_valid(2) [OF assms(1,2)] assms(3) have ok: "route_ok p rt"
    by (simp add: list_all_iff)
  then have pass: "\<forall>x \<in> set (path rt). passable p x" and adj: "successively adjacent (path rt)"
    by (simp_all add: route_ok_def list_all_iff)
  from pass have "\<forall>x \<in> set (path rt).
      0 \<le> fst x \<and> fst x < gridSize p \<and> 0 \<le> snd x \<and> snd x < gridSize p
      \<and> terrainMap p ! nat (fst x) ! nat (snd x) = 1"
    using passable_terrain [OF assms(1)] by (auto simp add: passable_def inGrid_def)
  moreover from adj have "\<forall>k. Suc k < length (path rt) \<longrightarrow> adjacent (path rt ! k) (path rt ! Suc k)"
    by (simp add: successively_conv_nth)
  ultimately show ?thesis by blast
qed

theorem C2_routes_witness:
  "valid_params patrol
   \<and> runLocalOptimization patrol secondRnd = Some (Inr patrolResult)
   \<and> routes patrolResult ! 1 \<in> set (routes patrolResult)
   \<and> path (routes patrolResult ! 1) = [(0, 0), (0, 1), (0, 0), (0, 1), (0, 0)]
   \<and> list_all (\<lambda>x. 0 \<le> fst x \<and> fst x < gridSize patrol \<and> 0 \<le> snd x \<and> snd x < gridSize patrol
                   \<and> terrainMap patrol ! nat (fst x) ! nat (snd x) = 1)
        (path (routes patrolResult ! 1))
   \<and> successively adjacent (path (routes patrolResult ! 1))"
proof -
  have m: "routes patrolResult ! 1 \<in> set (routes patrolResult)"
    by (simp add: patrolResult_def)
  have pth: "path (routes patrolResult ! 1) = [(0, 0), (0, 1), (0, 0), (0, 1), (0, 0)]"
    by (simp add: patrolResult_def)
  from C2_routes_on_passable_cells_and_connected [OF patrol_valid patrol_run' m]
  have "list_all (\<lambda>x. 0 \<le> fst x \<and> fst x < gridSize patrol \<and> 0 \<le> snd x \<and> snd x < gridSize patrol
                   \<and> terrainMap patrol ! nat (fst x) ! nat (snd x) = 1)
          (path (routes patrolResult ! 1))"
    and "successively adjacent (path (routes patrolResult ! 1))"
    unfolding list_all_iff successively_conv_nth by blast+
  with patrol_valid patrol_run' m pth show ?thesis by blast
qed



subsection \<open>Coverage\<close>

text \<open>
  C3. On a well-formed input the returned coverage grid has the side of the grid, and
  its entry at every cell \<open>(r, c)\<close> of the grid is the number of occurrences of \<open>(r, c)\<close>
  in the paths of the returned routes, all routes taken together; so it is not negative,
  and no visit of the computation has been dropped from it.
\<close>

theorem C3_coverage_counts_path_cells:
  assumes "valid_params p" "runLocalOptimization p rnd = Some (Inr res)"
    and "0 \<le> r" "r < gridSize p" "0 \<le> c" "c < gridSize p"
  shows "shape (gridSize p) (coverage res)
       \<and> coverage res ! nat r ! nat c = int (\<Sum>rt\<leftarrow>routes res. count_list (path rt) (r, c))
       \<and> 0 \<le> coverage res ! nat r ! nat c"
proof -
  from assms(3-6) have g: "inGrid p (r, c)" by (simp add: inGrid_def)
  from run_valid(3) [OF assms(1,2)] have "shape (gridSize p) (coverage res)"
    by (simp add: coverage_ok_def)
  moreover from run_valid(4) [OF assms(1,2) g]
  have "coverage res ! nat r ! nat c = int (\<Sum>rt\<leftarrow>routes res. count_list (path rt) (r, c))"
    by (simp add: cellAt_def)
  ultimately show ?thesis by simp
qed

theorem C3_coverage_witness:
  "valid_params patrol
   \<and> runLocalOptimization patrol secondRnd = Some (Inr patrolResult)
   \<and> (0::int) \<le> 0 \<and> 0 < gridSize patrol \<and> (0::int) \<le> 1 \<and> 1 < gridSize patrol
   \<and> coverage patrolResult ! nat 0 ! nat 1 = 5
   \<and> (\<Sum>rt\<leftarrow>routes patrolResult. count_list (path rt) (0, 1)) = 5"
proof -
  have a: "(0::int) \<le> 0" "0 < gridSize patrol" "(0::int) \<le> 1" "1 < gridSize patrol"
    by (simp_all add: patrol_def)
  have b: "coverage patrolResult ! nat 0 ! nat 1 = 5"
    by (simp add: patrolResult_def)
  from C3_coverage_counts_path_cells [OF patrol_valid patrol_run' a] b patrol_valid patrol_run' a
  show ?thesis by simp
qed

subsection \<open>Statistics\<close>

lemma riskSum_Cons: "riskSum p (x # xs) = riskSum p [x] + riskSum p xs"
  by (simp add: riskSum_def)

lemma mitigatedSum_Cons: "mitigatedSum p cov (x # xs) = mitigatedSum p cov [x] + mitigatedSum p cov xs"
  by (simp add: mitigatedSum_def)

lemma riskSum_append: "riskSum p (xs @ ys) = riskSum p xs + riskSum p ys"
  by (simp add: riskSum_def)

lemma mitigatedSum_append: "mitigatedSum p cov (xs @ ys) = mitigatedSum p cov xs + mitigatedSum p cov ys"
  by (simp add: mitigatedSum_def)

lemma highRiskPassable_append:
  "highRiskPassable p (xs @ ys) = highRiskPassable p xs @ highRiskPassable p ys"
  by (simp add: highRiskPassable_def)

lemma coveredCells_append: "coveredCells cov (xs @ ys) = coveredCells cov xs @ coveredCells cov ys"
  by (simp add: coveredCells_def)

lemma statsCell_valid:
  assumes "valid_params p" "coverage_ok p cov" "inGrid p (row, col)"
  shows "statsCell p cov row col (Fin t, Fin c, h, ch) =
           Inr (Fin (t + riskSum p [(row, col)]),
                Fin (c + mitigatedSum p cov [(row, col)]),
                h + length (highRiskPassable p [(row, col)]),
                ch + length (coveredCells cov (highRiskPassable p [(row, col)])))"
proof -
  note r = cell_reads(1,3) [OF assms]
  have t: "index2 (terrainMap p) row col = Inr (Some (cellAt (terrainMap p) (row, col)))"
    using terrain_lookup [OF assms(1,3)] by (simp add: cellAt_def)
  have cv: "covered cov row col = Inr (0 < cellAt cov (row, col))"
    by (simp add: covered_def r)
  have ps: "passable p (row, col) \<longleftrightarrow> cellAt (terrainMap p) (row, col) = 1"
    using assms(3) t by (simp add: passable_def)
  show ?thesis
  proof (cases "passable p (row, col)")
    case True
    with ps show ?thesis
      by (auto simp add: statsCell_def t r cv riskSum_def mitigatedSum_def highRiskPassable_def
            coveredCells_def)
  next
    case False
    with ps show ?thesis
      by (simp add: statsCell_def t riskSum_def mitigatedSum_def highRiskPassable_def
            coveredCells_def)
  qed
qed

lemma statsCols_valid:
  assumes "valid_params p" "coverage_ok p cov" "0 \<le> row" "row < gridSize p"
  shows "list_all (\<lambda>col. 0 \<le> col \<and> col < gridSize p) cols \<Longrightarrow>
         statsCols p cov row cols (Fin t, Fin c, h, ch) =
           Inr (Fin (t + riskSum p (map (Pair row) cols)),
                Fin (c + mitigatedSum p cov (map (Pair row) cols)),
                h + length (highRiskPassable p (map (Pair row) cols)),
                ch + length (coveredCells cov (highRiskPassable p (map (Pair row) cols))))"
proof (induction cols arbitrary: t c h ch)
  case Nil
  then show ?case
    by (simp add: riskSum_def mitigatedSum_def highRiskPassable_def coveredCells_def)
next
  case (Cons col cols)
  from Cons.prems assms(3,4) have g: "inGrid p (row, col)"
    and rest: "list_all (\<lambda>col. 0 \<le> col \<and> col < gridSize p) cols"
    by (simp_all add: inGrid_def)
  have split: "map (Pair row) (col # cols) = [(row, col)] @ map (Pair row) cols"
    by simp
  show ?case
    unfolding split riskSum_append mitigatedSum_append highRiskPassable_append
      coveredCells_append
    by (simp add: statsCell_valid [OF assms(1,2) g] Cons.IH [OF rest] add.assoc)
qed

lemma upto_in_range: "list_all (\<lambda>k. 0 \<le> k \<and> k < n) [0 .. n - 1]"
  by (simp add: list_all_iff)

lemma statsRows_valid:
  assumes "valid_params p" "coverage_ok p cov"
  shows "list_all (\<lambda>row. 0 \<le> row \<and> row < gridSize p) rows \<Longrightarrow>
         statsRows p cov rows (Fin t, Fin c, h, ch) =
           Inr (Fin (t + riskSum p (List.product rows [0 .. gridSize p - 1])),
                Fin (c + mitigatedSum p cov (List.product rows [0 .. gridSize p - 1])),
                h + length (highRiskPassable p (List.product rows [0 .. gridSize p - 1])),
                ch + length (coveredCells cov
                               (highRiskPassable p (List.product rows [0 .. gridSize p - 1]))))"
proof (induction rows arbitrary: t c h ch)
  case Nil
  then show ?case
    by (simp add: riskSum_def mitigatedSum_def highRiskPassable_def coveredCells_def)
next
  case (Cons row rows)
  from Cons.prems have r: "0 \<le> row" "row < gridSize p"
    and rest: "list_all (\<lambda>row. 0 \<le> row \<and> row < gridSize p) rows"
    by simp_all
  show ?case
    unfolding List.product.simps riskSum_append mitigatedSum_append highRiskPassable_append
      coveredCells_append
    by (simp add: statsCols_valid [OF assms r upto_in_range] Cons.IH [OF rest] add.assoc)
qed

lemma computeStats_valid:
  assumes "valid_params p" "coverage_ok p cov"
  shows "computeStats p cov =
           Inr (finishStats p (Fin (riskSum p (cells p)), Fin (mitigatedSum p cov (cells p)),
                               length (highRiskPassable p (cells p)),
                               length (coveredCells cov (highRiskPassable p (cells p)))))"
  using statsRows_valid [OF assms upto_in_range, of 0 0 0 0]
  by (simp add: computeStats_def cells_def)







subsection \<open>Degenerate inputs\<close>

lemma findStart_all_impassable:
  assumes "valid_params p" "all_impassable p"
  shows "findStart p rnd i = None"
proof (cases "findStart p rnd i")
  case None
  then show ?thesis .
next
  case (Some r)
  have "\<not> (valid_params p \<and> all_impassable p)"
  proof (rule findStart.raw_induct
      [where P = "\<lambda>p rnd i r. \<not> (valid_params p \<and> all_impassable p)", OF _ Some], goal_cases)
    case (1 f p rnd i r)
    show ?case
    proof
      assume a: "valid_params p \<and> all_impassable p"
      let ?start = "(\<lfloor>random rnd i * of_int (gridSize p)\<rfloor>, \<lfloor>random rnd (i + 1) * of_int (gridSize p)\<rfloor>)"
      from a have "0 < gridSize p" by (simp add: valid_params_def)
      then have g: "inGrid p ?start"
        unfolding inGrid_def fst_conv snd_conv by (intro conjI draw_in_range)
      note l = terrain_lookup [OF conjunct1 [OF a] g, simplified]
      from a g have z: "terrainMap p ! nat (fst ?start) ! nat (snd ?start) = 0"
        by (simp add: all_impassable_def valid_params_def shape_def inGrid_def list_all_length)
      with 1(2) l have "f p rnd (i + 2) = Some r"
        by (simp add: Let_def)
      from 1(1) [OF this] a show False by simp
    qed
  qed
  with assms show ?thesis by simp
qed

text \<open>
  C6. On a well-formed grid whose every cell is impassable, a call that asks for at
  least one ranger does not return: no start cell the loop draws ends it, and the code
  has no check before the loop. It returns neither a result nor an error.
\<close>

theorem C6_all_impassable_never_returns:
  assumes "valid_params p" "all_impassable p" "0 < rangerCount p"
  shows "runLocalOptimization p rnd = None"
proof -
  from newCoverage_valid [OF assms(1)] obtain cov0 where n: "newCoverage p = Inr cov0"
    by blast
  from assms(3) obtain k where k: "nat (rangerCount p) = Suc k"
    by (cases "nat (rangerCount p)") simp_all
  have "ranger p rnd 0 ([], cov0, 0) = None"
    by (simp add: ranger_def findStart_all_impassable [OF assms(1,2)])
  then have "rangers p rnd (nat (rangerCount p)) 0 ([], cov0, 0) = None"
    by (simp add: k)
  with n show ?thesis
    by (simp add: runLocalOptimization_def runLocalOptimizationDraws_def)
qed

theorem C6_all_impassable_witness:
  "valid_params blocked \<and> all_impassable blocked \<and> 0 < rangerCount blocked
   \<and> runLocalOptimization blocked (constRnd 0) = None"
proof -
  have v: "valid_params blocked"
    by (simp add: valid_params_def blocked_def shape_def)
  have a: "all_impassable blocked"
    by (simp add: all_impassable_def blocked_def)
  have r: "0 < rangerCount blocked"
    by (simp add: blocked_def)
  from C6_all_impassable_never_returns [OF v a r, of "constRnd 0"] v a r show ?thesis
    by blast
qed

lemma run_no_error:
  assumes "valid_params p"
  shows "runLocalOptimization p rnd \<noteq> Some (Inl e)"
proof
  assume err: "runLocalOptimization p rnd = Some (Inl e)"
  from newCoverage_valid [OF assms] obtain cov0 where n: "newCoverage p = Inr cov0"
    and ok0: "coverage_ok p cov0"
    by blast
  show False
  proof (cases "rangers p rnd (nat (rangerCount p)) 0 ([], cov0, 0)")
    case None
    with err n show False
      by (simp add: runLocalOptimization_def runLocalOptimizationDraws_def)
  next
    case (Some r)
    from rangers_valid [OF assms ok0 Some] obtain new cov' i'
      where r: "r = Inr ([] @ new, cov', i')" and ok: "coverage_ok p cov'"
      by blast
    from err n Some r computeStats_valid [OF assms ok] show False
      by (simp add: runLocalOptimization_def runLocalOptimizationDraws_def)
  qed
qed

lemma negativeGrid_run: "runLocalOptimization negativeGrid (constRnd 0) = Some (Inl RangeError)"
  by code_simp

lemma noRangers_run:
  "runLocalOptimization noRangers (constRnd 0) =
     Some (Inr \<lparr>routes = [], coverage = [[0, 0], [0, 0]],
                stats = \<lparr>beforeRisk = Fin 0, afterRisk = Fin 0,
                         riskReduction = ''NaN%'', highRiskCoverage = ''100%''\<rparr>\<rparr>)"
  by code_simp

lemma noSteps_run:
  "runLocalOptimization noSteps (constRnd 0) =
     Some (Inr \<lparr>routes = [\<lparr>rangerId = 0, path = [(0, 0)]\<rparr>], coverage = [[1, 0], [0, 0]],
                stats = \<lparr>beforeRisk = Fin 0, afterRisk = Fin 0,
                         riskReduction = ''NaN%'', highRiskCoverage = ''100%''\<rparr>\<rparr>)"
  by code_simp

text \<open>
  C8. The generator validates nothing and has no configuration error. A run on the
  corridor grid with \<open>rangerCount = 0\<close> is not rejected: it returns an empty list of
  routes, the all-zero coverage grid and statistics.
\<close>

theorem C8_zero_rangers_accepted:
  "rangerCount noRangers \<le> 0
   \<and> runLocalOptimization noRangers (constRnd 0) =
       Some (Inr \<lparr>routes = [], coverage = [[0, 0], [0, 0]],
                  stats = \<lparr>beforeRisk = Fin 0, afterRisk = Fin 0,
                           riskReduction = ''NaN%'', highRiskCoverage = ''100%''\<rparr>\<rparr>)"
  by (simp add: noRangers_run) (simp add: noRangers_def corridor_def)

text \<open>
  C8, as the code has it. A negative \<open>gridSize\<close> makes the call fail at once, with the
  RangeError of \<open>Array(gridSize)\<close>, before any route is generated. On a well-formed grid
  the call never ends with an error, whatever \<open>rangerCount\<close> and \<open>maxSteps\<close> are: with a
  non-positive \<open>rangerCount\<close> it returns no route, the all-zero coverage grid and
  statistics; with a non-positive \<open>maxSteps\<close> every route it returns is its start cell
  alone.
\<close>

theorem C8_configuration_not_validated:
  "(gridSize p < 0 \<longrightarrow> runLocalOptimization p rnd = Some (Inl RangeError))
   \<and> (valid_params p \<longrightarrow>
         (\<forall>e. runLocalOptimization p rnd \<noteq> Some (Inl e))
         \<and> (rangerCount p \<le> 0 \<longrightarrow>
               (\<exists>st. runLocalOptimization p rnd =
                   Some (Inr \<lparr>routes = [],
                              coverage = replicate (nat (gridSize p)) (replicate (nat (gridSize p)) 0),
                              stats = st\<rparr>)))
         \<and> (maxSteps p \<le> 0 \<longrightarrow>
               (\<forall>res. runLocalOptimization p rnd = Some (Inr res) \<longrightarrow>
                  list_all (\<lambda>rt. length (path rt) = 1) (routes res))))"
proof -
  have 1: "gridSize p < 0 \<longrightarrow> runLocalOptimization p rnd = Some (Inl RangeError)"
    by (simp add: runLocalOptimization_def runLocalOptimizationDraws_def newCoverage_def)
  have 2: "\<forall>e. runLocalOptimization p rnd \<noteq> Some (Inl e)" if "valid_params p"
    using run_no_error [OF that] by blast
  have 3: "\<exists>st. runLocalOptimization p rnd =
                   Some (Inr \<lparr>routes = [],
                              coverage = replicate (nat (gridSize p)) (replicate (nat (gridSize p)) 0),
                              stats = st\<rparr>)"
    if v: "valid_params p" and r: "rangerCount p \<le> 0"
  proof -
    let ?cov0 = "replicate (nat (gridSize p)) (replicate (nat (gridSize p)) (0::int))"
    from v have n: "newCoverage p = Inr ?cov0"
      by (simp add: newCoverage_def valid_params_def)
    with newCoverage_valid [OF v] have ok: "coverage_ok p ?cov0" by simp
    from r have k: "nat (rangerCount p) = 0" by simp
    show ?thesis
      by (simp add: runLocalOptimization_def runLocalOptimizationDraws_def n k
            computeStats_valid [OF v ok])
  qed
  have 4: "list_all (\<lambda>rt. length (path rt) = 1) (routes res)"
    if v: "valid_params p" and m: "maxSteps p \<le> 0"
      and run: "runLocalOptimization p rnd = Some (Inr res)" for res
  proof -
    have "\<forall>rt \<in> set (routes res). length (path rt) = 1"
    proof
      fix rt assume "rt \<in> set (routes res)"
      with run_valid(2) [OF v run] have "route_ok p rt" by (simp add: list_all_iff)
      with m show "length (path rt) = 1"
        by (cases "path rt") (simp_all add: route_ok_def)
    qed
    then show ?thesis by (simp add: list_all_iff)
  qed
  from 1 2 3 4 show ?thesis by blast
qed

theorem C8_configuration_witness:
  "gridSize negativeGrid < 0
   \<and> runLocalOptimization negativeGrid (constRnd 0) = Some (Inl RangeError)
   \<and> valid_params noRangers \<and> rangerCount noRangers \<le> 0
   \<and> (\<exists>st. runLocalOptimization noRangers (constRnd 0) =
         Some (Inr \<lparr>routes = [], coverage = [[0, 0], [0, 0]], stats = st\<rparr>))
   \<and> valid_params noSteps \<and> maxSteps noSteps \<le> 0
   \<and> (\<exists>res. runLocalOptimization noSteps (constRnd 0) = Some (Inr res)
         \<and> map path (routes res) = [[(0, 0)]])"
proof -
  have a: "gridSize negativeGrid < 0" "rangerCount noRangers \<le> 0" "maxSteps noSteps \<le> 0"
    by (simp_all add: negativeGrid_def noRangers_def noSteps_def corridor_def)
  have v: "valid_params noRangers" "valid_params noSteps"
    by (simp_all add: valid_params_def noRangers_def noSteps_def corridor_def shape_def)
  have t1: "runLocalOptimization negativeGrid (constRnd 0) = Some (Inl RangeError)"
    using C8_configuration_not_validated [of negativeGrid "constRnd 0"] a(1) by blast
  have t2: "\<forall>e. runLocalOptimization noRangers (constRnd 0) \<noteq> Some (Inl e)"
    using C8_configuration_not_validated [of noRangers "constRnd 0"] v(1) by blast
  have t3: "\<forall>e. runLocalOptimization noSteps (constRnd 0) \<noteq> Some (Inl e)"
    using C8_configuration_not_validated [of noSteps "constRnd 0"] v(2) by blast
  have b: "\<exists>st. runLocalOptimization noRangers (constRnd 0) =
         Some (Inr \<lparr>routes = [], coverage = [[0, 0], [0, 0]], stats = st\<rparr>)"
    by (simp add: noRangers_run)
  have c: "\<exists>res. runLocalOptimization noSteps (constRnd 0) = Some (Inr res)
         \<and> map path (routes res) = [[(0, 0)]]"
    by (simp add: noSteps_run)
  from t1 t2 t3 a v b c show ?thesis by blast
qed

subsection \<open>Dependence on the random source\<close>

lemma findStart_draws:
  assumes "findStart p rnd i = Some r"
  shows "\<forall>start i'. r = Inr (start, i') \<longrightarrow>
           i + 2 \<le> i' \<and>
           ((\<forall>j. i \<le> j \<and> j < i' \<longrightarrow> random rnd' j = random rnd j) \<longrightarrow>
              findStart p rnd' i = Some r)"
proof (rule findStart.raw_induct
    [where P = "\<lambda>p rnd i r. \<forall>start i'. r = Inr (start, i') \<longrightarrow>
           i + 2 \<le> i' \<and>
           ((\<forall>j. i \<le> j \<and> j < i' \<longrightarrow> random rnd' j = random rnd j) \<longrightarrow>
              findStart p rnd' i = Some r)", OF _ assms], goal_cases)
  case (1 f p rnd i r)
  define sr where "sr = \<lfloor>random rnd i * of_int (gridSize p)\<rfloor>"
  define sc where "sc = \<lfloor>random rnd (i + 1) * of_int (gridSize p)\<rfloor>"
  from 1(2) have body:
    "(case index2 (terrainMap p) sr sc of
        Inl e \<Rightarrow> Some (Inl e)
      | Inr t \<Rightarrow> if t = Some 0 then f p rnd (i + 2) else Some (Inr ((sr, sc), i + 2))) = Some r"
    unfolding Let_def sr_def sc_def .
  have unfold: "findStart p rnd' i =
      (case index2 (terrainMap p) sr sc of
         Inl e \<Rightarrow> Some (Inl e)
       | Inr t \<Rightarrow> if t = Some 0 then findStart p rnd' (i + 2) else Some (Inr ((sr, sc), i + 2)))"
    if "random rnd' i = random rnd i" "random rnd' (i + 1) = random rnd (i + 1)"
    apply (subst findStart.simps)
    unfolding Let_def sr_def sc_def that
    by (rule refl)
  show ?case
  proof (intro allI impI)
    fix start i'
    assume r: "r = Inr (start, i')"
    show "i + 2 \<le> i' \<and>
           ((\<forall>j. i \<le> j \<and> j < i' \<longrightarrow> random rnd' j = random rnd j) \<longrightarrow>
              findStart p rnd' i = Some r)"
    proof (cases "index2 (terrainMap p) sr sc")
      case (Inl e)
      with body r show ?thesis by simp
    next
      case (Inr t)
      show ?thesis
      proof (cases "t = Some 0")
        case True
        with body Inr have "f p rnd (i + 2) = Some r" by simp
        from 1(1) [OF this] r have le: "i + 2 + 2 \<le> i'"
          and eq: "(\<forall>j. i + 2 \<le> j \<and> j < i' \<longrightarrow> random rnd' j = random rnd j) \<longrightarrow>
              findStart p rnd' (i + 2) = Some r"
          by blast+
        have "findStart p rnd' i = Some r"
          if a: "\<forall>j. i \<le> j \<and> j < i' \<longrightarrow> random rnd' j = random rnd j"
        proof -
          from a le have "random rnd' i = random rnd i" "random rnd' (i + 1) = random rnd (i + 1)"
            by simp_all
          from unfold [OF this] Inr True have "findStart p rnd' i = findStart p rnd' (i + 2)"
            by simp
          moreover from a eq have "findStart p rnd' (i + 2) = Some r" by simp
          ultimately show ?thesis by simp
        qed
        with le show ?thesis by simp
      next
        case False
        with body Inr r have i': "i' = i + 2" and rr: "r = Inr ((sr, sc), i + 2)"
          by simp_all
        have "findStart p rnd' i = Some r"
          if a: "\<forall>j. i \<le> j \<and> j < i' \<longrightarrow> random rnd' j = random rnd j"
        proof -
          from a i' have "random rnd' i = random rnd i" "random rnd' (i + 1) = random rnd (i + 1)"
            by simp_all
          from unfold [OF this] Inr False rr show ?thesis by simp
        qed
        with i' show ?thesis by simp
      qed
    qed
  qed
qed

lemma ranger_draws:
  assumes "ranger p rnd r (rts, cov, i) = Some (Inr (rts', cov', i'))"
  shows "i \<le> i' \<and>
         ((\<forall>j. i \<le> j \<and> j < i' \<longrightarrow> random rnd' j = random rnd j) \<longrightarrow>
            ranger p rnd' r (rts, cov, i) = Some (Inr (rts', cov', i')))"
proof -
  from assms obtain start where f: "findStart p rnd i = Some (Inr (start, i'))"
    by (auto simp add: ranger_def split: option.splits sum.splits prod.splits)
  from findStart_draws [OF f, of rnd'] have le: "i + 2 \<le> i'"
    and eq: "(\<forall>j. i \<le> j \<and> j < i' \<longrightarrow> random rnd' j = random rnd j) \<longrightarrow>
               findStart p rnd' i = Some (Inr (start, i'))"
    by blast+
  have "ranger p rnd' r (rts, cov, i) = Some (Inr (rts', cov', i'))"
    if "\<forall>j. i \<le> j \<and> j < i' \<longrightarrow> random rnd' j = random rnd j"
  proof -
    from that eq have "findStart p rnd' i = findStart p rnd i" by (simp add: f)
    with assms show ?thesis by (simp add: ranger_def)
  qed
  with le show ?thesis by simp
qed

lemma rangers_draws:
  "rangers p rnd k r (rts, cov, i) = Some (Inr (rts', cov', i')) \<Longrightarrow>
   i \<le> i' \<and>
   ((\<forall>j. i \<le> j \<and> j < i' \<longrightarrow> random rnd' j = random rnd j) \<longrightarrow>
      rangers p rnd' k r (rts, cov, i) = Some (Inr (rts', cov', i')))"
proof (induction k arbitrary: r rts cov i)
  case 0
  then show ?case by simp
next
  case (Suc k)
  from Suc.prems obtain rts1 cov1 i1
    where r1: "ranger p rnd r (rts, cov, i) = Some (Inr (rts1, cov1, i1))"
      and rest: "rangers p rnd k (r + 1) (rts1, cov1, i1) = Some (Inr (rts', cov', i'))"
    by (auto split: option.splits sum.splits)
  from ranger_draws [OF r1, of rnd'] have le1: "i \<le> i1"
    and eq1: "(\<forall>j. i \<le> j \<and> j < i1 \<longrightarrow> random rnd' j = random rnd j) \<longrightarrow>
                ranger p rnd' r (rts, cov, i) = Some (Inr (rts1, cov1, i1))"
    by blast+
  from Suc.IH [OF rest] have le2: "i1 \<le> i'"
    and eq2: "(\<forall>j. i1 \<le> j \<and> j < i' \<longrightarrow> random rnd' j = random rnd j) \<longrightarrow>
                rangers p rnd' k (r + 1) (rts1, cov1, i1) = Some (Inr (rts', cov', i'))"
    by blast+
  have "rangers p rnd' (Suc k) r (rts, cov, i) = Some (Inr (rts', cov', i'))"
    if a: "\<forall>j. i \<le> j \<and> j < i' \<longrightarrow> random rnd' j = random rnd j"
  proof -
    from a le2 eq1 have "ranger p rnd' r (rts, cov, i) = Some (Inr (rts1, cov1, i1))"
      by simp
    moreover from a le1 eq2 have "rangers p rnd' k (r + 1) (rts1, cov1, i1) = Some (Inr (rts', cov', i'))"
      by simp
    ultimately show ?thesis by simp
  qed
  with le1 le2 show ?case by simp
qed

text \<open>
  C9. The result of a run is a function of the parameters and of the numbers the random
  source hands out: a run that returns after \<open>n\<close> draws returns the same routes, coverage
  grid and statistics, after the same number of draws, with every random source that
  hands out the same first \<open>n\<close> numbers; in particular with the same random source.
\<close>

theorem C9_same_draws_same_result:
  assumes "runLocalOptimizationDraws p rnd = Some (Inr (res, n))"
    and "\<forall>j < n. random rnd' j = random rnd j"
  shows "runLocalOptimizationDraws p rnd' = Some (Inr (res, n))
       \<and> runLocalOptimization p rnd' = Some (Inr res)
       \<and> runLocalOptimization p rnd = Some (Inr res)"
proof -
  from assms(1) obtain cov0 where n: "newCoverage p = Inr cov0"
    and r: "rangers p rnd (nat (rangerCount p)) 0 ([], cov0, 0) = Some (Inr (routes res, coverage res, n))"
    and s: "computeStats p (coverage res) = Inr (stats res)"
    by (auto simp add: runLocalOptimizationDraws_def split: sum.splits option.splits prod.splits)
  from rangers_draws [OF r, of rnd'] assms(2)
  have r': "rangers p rnd' (nat (rangerCount p)) 0 ([], cov0, 0) = Some (Inr (routes res, coverage res, n))"
    by simp
  from n r' s have "runLocalOptimizationDraws p rnd' = Some (Inr (res, n))"
    by (simp add: runLocalOptimizationDraws_def)
  with assms(1) show ?thesis
    by (simp add: runLocalOptimization_def)
qed

theorem C9_same_draws_witness:
  "runLocalOptimizationDraws patrol secondRnd = Some (Inr (patrolResult, 4))
   \<and> list_all (\<lambda>j. random laterRnd j = random secondRnd j) [0, 1, 2, 3]
   \<and> laterRnd 4 \<noteq> secondRnd 4
   \<and> runLocalOptimization patrol laterRnd = Some (Inr patrolResult)
   \<and> runLocalOptimization patrol secondRnd = Some (Inr patrolResult)"
proof -
  have a: "\<forall>j < 4. random laterRnd j = random secondRnd j"
    by (simp add: random_def laterRnd_def secondRnd_def)
  have b: "list_all (\<lambda>j. random laterRnd j = random secondRnd j) [0, 1, 2, 3]"
    by (simp add: random_def laterRnd_def secondRnd_def)
  have c: "laterRnd 4 \<noteq> secondRnd 4"
    by (simp add: laterRnd_def secondRnd_def)
  from C9_same_draws_same_result [OF patrol_run a] b c patrol_run show ?thesis
    by blast
qed

end
